theory Spec2Isabelle
  imports Main "HOL-Library.AList" "HOL-Library.Sublist"
begin

section \<open>Project-root resolution (flashboot\_core/utils/project\_utils.py)\<close>

subsection \<open>Paths, exceptions and the file system\<close>

text \<open>
  \<open>start_path\<close> is \<open>Path(start_path).resolve()\<close>: an absolute, normalised path. Such a
  path is modelled by the list of its components below the file-system root, outermost
  first; the root is the empty list. \<open>current.parent\<close> drops the last component and the
  root is its own parent, \<open>current.name\<close> is the last component (the empty string at the
  root), and \<open>current / marker\<close> appends a component.
\<close>

type_synonym path = "string list"

definition parent :: "path \<Rightarrow> path" where
  "parent p = butlast p"

definition name :: "path \<Rightarrow> string" where
  "name p = (if p = [] then [] else last p)"

definition joinpath :: "path \<Rightarrow> string \<Rightarrow> path" where
  "joinpath p m = p @ [m]"

text \<open>
  A Python exception, by class name and message. Everything raised in this module is an
  instance of \<open>Exception\<close>, which is what the \<open>except Exception\<close> clauses catch.
\<close>

datatype error = Exception string string

definition root_not_found :: error where
  "root_not_found =
     Exception ''FileNotFoundError'' ''Unable to locate project root directory.''"

text \<open>
  The queries the module puts to the file system. Each either answers or raises
  (\<open>Path.exists\<close> re-raises an \<open>OSError\<close> it does not ignore, such as a permission error).
  \<open>glob_py p\<close> is \<open>list(p.glob("*.py"))\<close>.
\<close>

record filesystem =
  exists :: "path \<Rightarrow> error + bool"
  is_dir :: "path \<Rightarrow> error + bool"
  is_file :: "path \<Rightarrow> error + bool"
  glob_py :: "path \<Rightarrow> error + path list"

subsection \<open>Class constants\<close>

definition MAX_TRAVERSAL_DEPTH :: nat where
  "MAX_TRAVERSAL_DEPTH = 50"

definition DEFAULT_MARKERS :: "string list" where
  "DEFAULT_MARKERS =
     [''setup.py'', ''pyproject.toml'', ''setup.cfg'', ''poetry.lock'', ''uv.lock'',
      ''requirements.txt'', ''.git'', ''.gitignore'', ''.hg'', ''Pipfile'', ''Makefile'',
      ''.idea'', ''.vscode'', ''.venv'']"

definition NON_ROOT_DIR_NAMES :: "string set" where
  "NON_ROOT_DIR_NAMES = {''.venv'', ''.idea'', ''.git'', ''.vscode'', ''.hg''}"

subsection \<open>Marker scoring: \<open>_find_by_markers\<close>\<close>

text \<open>
  \<open>sum(1 for marker in markers if (current / marker).exists())\<close>: the markers are tried
  from left to right and the first query that raises ends the count.
\<close>

fun marker_count :: "filesystem \<Rightarrow> path \<Rightarrow> string list \<Rightarrow> error + nat" where
  "marker_count fs cur [] = Inr 0"
| "marker_count fs cur (m # ms) =
     (case exists fs (joinpath cur m) of
        Inl e \<Rightarrow> Inl e
      | Inr b \<Rightarrow>
          (case marker_count fs cur ms of
             Inl e \<Rightarrow> Inl e
           | Inr n \<Rightarrow> Inr ((if b then 1 else 0) + n)))"

text \<open>
  The variables of the \<open>while\<close> loop. \<open>candidates\<close> is a Python dict, which keeps its keys
  in insertion order: an association list, where assigning to a key that is present
  replaces its value in place and assigning to a new key appends (\<open>AList.update\<close>).
\<close>

record scan =
  candidates :: "(path \<times> nat) list"
  depth :: nat
  current :: path

text \<open>
  One run of the loop body, after \<open>depth += 1\<close>. \<open>Inl\<close> is an exception raised by the
  file system; the assignment to \<open>candidates\<close> comes after every query, so an exception
  leaves the dict as it was.
\<close>

definition markers_body :: "filesystem \<Rightarrow> string list \<Rightarrow> scan \<Rightarrow> error + scan" where
  "markers_body fs markers s =
     (let s1 = s\<lparr>depth := depth s + 1\<rparr>;
          skip = s1\<lparr>current := parent (current s)\<rparr>
      in case exists fs (current s) of
           Inl e \<Rightarrow> Inl e
         | Inr False \<Rightarrow> Inr skip
         | Inr True \<Rightarrow>
             (case is_dir fs (current s) of
                Inl e \<Rightarrow> Inl e
              | Inr False \<Rightarrow> Inr skip
              | Inr True \<Rightarrow>
                  if name (current s) \<in> NON_ROOT_DIR_NAMES then Inr skip
                  else
                    (case marker_count fs (current s) markers of
                       Inl e \<Rightarrow> Inl e
                     | Inr n \<Rightarrow>
                         Inr (s1\<lparr>candidates :=
                                   (if n > 0 then AList.update (current s) n (candidates s)
                                    else candidates s),
                                 current := parent (current s)\<rparr>))))"

text \<open>
  The loop, with its \<open>try\<close>: an exception in the body ends the loop and is swallowed
  (\<open>except Exception: pass\<close>), the candidates recorded so far are kept. The result is
  the state in which the loop was left.
\<close>

function markers_loop :: "filesystem \<Rightarrow> string list \<Rightarrow> scan \<Rightarrow> scan" where
  "markers_loop fs markers s =
     (if current s \<noteq> parent (current s) \<and> depth s < MAX_TRAVERSAL_DEPTH then
        (case markers_body fs markers s of
           Inl e \<Rightarrow> s\<lparr>depth := depth s + 1\<rparr>
         | Inr s' \<Rightarrow> markers_loop fs markers s')
      else s)"
  by pat_completeness auto
termination
  by (relation "measure (\<lambda>(fs, markers, s). MAX_TRAVERSAL_DEPTH - depth s)")
     (auto simp: markers_body_def Let_def split: sum.splits bool.splits if_splits)

text \<open>
  \<open>max(candidates.items(), key=lambda x: x[1])\<close>: Python's \<open>max\<close> keeps the first item
  and replaces it only by a later item whose key is strictly greater.
\<close>

definition py_max :: "(path \<times> nat) \<Rightarrow> (path \<times> nat) list \<Rightarrow> path \<times> nat" where
  "py_max x xs = foldl (\<lambda>best y. if snd y > snd best then y else best) x xs"

text \<open>
  \<open>start\<close> is \<open>self.start_path\<close> (\<open>None\<close> is tested for although the constructor never
  stores it), \<open>markers\<close> the optional argument; \<open>if not markers\<close> holds for \<open>None\<close> and
  for the empty list. \<open>current.is_file()\<close> stands before the \<open>try\<close>, so an exception it
  raises leaves the method.
\<close>

definition markers_or_default :: "string list option \<Rightarrow> string list" where
  "markers_or_default markers =
     (case markers of
        None \<Rightarrow> DEFAULT_MARKERS
      | Some [] \<Rightarrow> DEFAULT_MARKERS
      | Some l \<Rightarrow> l)"

text \<open>The dict when the loop is left, for a traversal that begins at \<open>start_dir\<close>.\<close>

definition recorded :: "filesystem \<Rightarrow> string list \<Rightarrow> path \<Rightarrow> (path \<times> nat) list" where
  "recorded fs markers start_dir =
     candidates (markers_loop fs markers \<lparr>candidates = [], depth = 0, current = start_dir\<rparr>)"

definition find_by_markers ::
  "filesystem \<Rightarrow> path option \<Rightarrow> string list option \<Rightarrow> error + path option" where
  "find_by_markers fs start markers =
     (case start of
        None \<Rightarrow> Inr None
      | Some sp \<Rightarrow>
          (case is_file fs sp of
             Inl e \<Rightarrow> Inl e
           | Inr f \<Rightarrow>
               (case recorded fs (markers_or_default markers) (if f then parent sp else sp) of
                  [] \<Rightarrow> Inr None
                | c # cs \<Rightarrow> Inr (Some (fst (py_max c cs))))))"

text \<open>
  What the loop body asks of a directory before it records it with the count \<open>n\<close>.
\<close>

definition scored :: "filesystem \<Rightarrow> string list \<Rightarrow> path \<Rightarrow> nat \<Rightarrow> bool" where
  "scored fs ms d n \<longleftrightarrow>
     d \<noteq> [] \<and> name d \<notin> NON_ROOT_DIR_NAMES \<and> exists fs d = Inr True \<and> is_dir fs d = Inr True
     \<and> marker_count fs d ms = Inr n \<and> 0 < n"

subsection \<open>Structure heuristic: \<open>_find_by_structure\<close>\<close>

text \<open>
  Python's \<open>a and b\<close> and \<open>a or b\<close> on queries that may raise: \<open>b\<close> is only asked when
  \<open>a\<close> does not decide.
\<close>

definition and_also :: "error + bool \<Rightarrow> error + bool \<Rightarrow> error + bool" where
  "and_also a b = (case a of Inl e \<Rightarrow> Inl e | Inr False \<Rightarrow> Inr False | Inr True \<Rightarrow> b)"

definition or_else :: "error + bool \<Rightarrow> error + bool \<Rightarrow> error + bool" where
  "or_else a b = (case a of Inl e \<Rightarrow> Inl e | Inr True \<Rightarrow> Inr True | Inr False \<Rightarrow> b)"

definition has_layout :: "filesystem \<Rightarrow> path \<Rightarrow> error + bool" where
  "has_layout fs cur =
     (let src_dir = joinpath cur ''src''; lib_dir = joinpath cur ''lib''
      in or_else (and_also (exists fs src_dir) (is_dir fs src_dir))
                 (and_also (exists fs lib_dir) (is_dir fs lib_dir)))"

text \<open>
  The loop has no \<open>try\<close>: an exception leaves the method. The arguments are the
  variables \<open>depth\<close> and \<open>current\<close> at the loop head.
\<close>

function structure_loop :: "filesystem \<Rightarrow> nat \<Rightarrow> path \<Rightarrow> error + path option" where
  "structure_loop fs d cur =
     (if cur \<noteq> parent cur \<and> d < MAX_TRAVERSAL_DEPTH then
        (case has_layout fs cur of
           Inl e \<Rightarrow> Inl e
         | Inr False \<Rightarrow> structure_loop fs (d + 1) (parent cur)
         | Inr True \<Rightarrow>
             (case glob_py fs cur of
                Inl e \<Rightarrow> Inl e
              | Inr files \<Rightarrow>
                  if files \<noteq> [] then Inr (Some cur)
                  else structure_loop fs (d + 1) (parent cur)))
      else Inr None)"
  by pat_completeness auto
termination
  by (relation "measure (\<lambda>(fs, d, cur). MAX_TRAVERSAL_DEPTH - d)") auto

text \<open>With \<open>start_path\<close> \<open>None\<close> the loop condition \<open>current.parent\<close> raises.\<close>

definition find_by_structure :: "filesystem \<Rightarrow> path option \<Rightarrow> error + path option" where
  "find_by_structure fs start =
     (case start of
        None \<Rightarrow>
          Inl (Exception ''AttributeError''
                 ([CHR 0x27] @ ''NoneType'' @ [CHR 0x27] @ '' object has no attribute ''
                  @ [CHR 0x27] @ ''parent'' @ [CHR 0x27]))
      | Some sp \<Rightarrow> structure_loop fs 0 sp)"

subsection \<open>The orchestrator: \<open>find_root\<close>\<close>

text \<open>
  The instance: \<open>start_path\<close> and \<open>_cache\<close>. A \<open>Path\<close> object is always true in a
  condition, so \<open>if self._cache\<close> and \<open>if result\<close> ask whether the value is not \<open>None\<close>.
\<close>

record finder =
  start_path :: "path option"
  cache :: "path option"

text \<open>
  A strategy is called without arguments and returns an optional path or raises; what it
  does when called is its outcome. \<open>method_map\<close> is a parameter of the model of
  \<open>find_root\<close>: the tests replace the bound methods by mocks that return or raise at
  will. What \<open>find_root\<close> does besides returning is a trace: the strategies it called
  and the warnings it logged, in order.
\<close>

type_synonym strategy = "error + path option"

datatype event = Invoked string | Warning string

definition unknown_message :: "string \<Rightarrow> string" where
  "unknown_message method_name = ''Unknown search method: '' @ method_name @ '', skipping''"

definition failed_message :: "string \<Rightarrow> error \<Rightarrow> string" where
  "failed_message method_name e =
     (case e of Exception cls msg \<Rightarrow>
        ''Failed to find project root via '' @ [CHR 0x27] @ method_name @ [CHR 0x27]
          @ '': '' @ msg)"

fun try_methods :: "(string \<rightharpoonup> strategy) \<Rightarrow> string list \<Rightarrow> path option \<times> event list" where
  "try_methods mm [] = (None, [])"
| "try_methods mm (method_name # rest) =
     (case mm method_name of
        None \<Rightarrow>
          (let (r, tr) = try_methods mm rest
           in (r, Warning (unknown_message method_name) # tr))
      | Some (Inl e) \<Rightarrow>
          (let (r, tr) = try_methods mm rest
           in (r, Invoked method_name # Warning (failed_message method_name e) # tr))
      | Some (Inr None) \<Rightarrow>
          (let (r, tr) = try_methods mm rest in (r, Invoked method_name # tr))
      | Some (Inr (Some p)) \<Rightarrow> (Some p, [Invoked method_name]))"

record call =
  result :: "error + path"
  self :: finder
  trace :: "event list"

definition default_search_methods :: "string list" where
  "default_search_methods = [''git'', ''svn'', ''hg'', ''markers'', ''structure'']"

text \<open>\<open>if search_methods is None\<close>: only an absent list is replaced, an empty one is kept.\<close>

definition methods_or_default :: "string list option \<Rightarrow> string list" where
  "methods_or_default search_methods =
     (case search_methods of None \<Rightarrow> default_search_methods | Some l \<Rightarrow> l)"

definition find_root :: "(string \<rightharpoonup> strategy) \<Rightarrow> string list option \<Rightarrow> finder \<Rightarrow> call" where
  "find_root mm search_methods f =
     (case cache f of
        Some p \<Rightarrow> \<lparr>result = Inr p, self = f, trace = []\<rparr>
      | None \<Rightarrow>
          (case try_methods mm (methods_or_default search_methods) of
             (Some p, tr) \<Rightarrow> \<lparr>result = Inr p, self = f\<lparr>cache := Some p\<rparr>, trace = tr\<rparr>
           | (None, tr) \<Rightarrow> \<lparr>result = Inl root_not_found, self = f, trace = tr\<rparr>))"

text \<open>
  The \<open>method_map\<close> of the source. The three version-control probes run an external
  command and turn every failure into \<open>None\<close>; what they return is an input here.
\<close>

record vcs =
  find_by_git :: "path option"
  find_by_svn :: "path option"
  find_by_hg :: "path option"

definition method_map :: "vcs \<Rightarrow> filesystem \<Rightarrow> finder \<Rightarrow> (string \<rightharpoonup> strategy)" where
  "method_map v fs f =
     [''git'' \<mapsto> Inr (find_by_git v),
      ''svn'' \<mapsto> Inr (find_by_svn v),
      ''hg'' \<mapsto> Inr (find_by_hg v),
      ''markers'' \<mapsto> find_by_markers fs (start_path f) None,
      ''structure'' \<mapsto> find_by_structure fs (start_path f)]"

text \<open>The strategies that a trace says were called, in order.\<close>

fun invoked :: "event list \<Rightarrow> string list" where
  "invoked [] = []"
| "invoked (Invoked n # es) = n # invoked es"
| "invoked (Warning w # es) = invoked es"

subsection \<open>Directory trees of the tests\<close>

text \<open>
  \<open>DirectoryEnvironment\<close> of the test module builds a tree below a temporary directory:
  \<open>mkdir\<close> makes a directory with all its ancestors, \<open>touch\<close> makes an empty file after
  making its parent. The tree is kept as the lists of its directories and files, and
  \<open>fs_of\<close> answers the queries from them; no query raises.
\<close>

record directory_environment =
  dirs :: "path list"
  files :: "path list"

definition empty_environment :: directory_environment where
  "empty_environment = \<lparr>dirs = [[]], files = []\<rparr>"

definition mkdir :: "path \<Rightarrow> directory_environment \<Rightarrow> directory_environment" where
  "mkdir p e = e\<lparr>dirs := prefixes p @ dirs e\<rparr>"

definition touch :: "path \<Rightarrow> directory_environment \<Rightarrow> directory_environment" where
  "touch p e = (mkdir (parent p) e)\<lparr>files := p # files e\<rparr>"

definition fs_of :: "directory_environment \<Rightarrow> filesystem" where
  "fs_of e =
     \<lparr>exists = (\<lambda>p. Inr (p \<in> set (dirs e) \<or> p \<in> set (files e))),
      is_dir = (\<lambda>p. Inr (p \<in> set (dirs e))),
      is_file = (\<lambda>p. Inr (p \<in> set (files e))),
      glob_py = (\<lambda>p. Inr (filter (\<lambda>q. q \<noteq> [] \<and> parent q = p \<and> suffix ''.py'' (name q))
                              (dirs e @ files e)))\<rparr>"


text \<open>
  \<open>test_monorepo_submodules_equal_markers\<close>: \<open>monorepo\<close> and \<open>monorepo/packages/pkg-a\<close>
  hold two markers each.
\<close>

definition monorepo :: filesystem where
  "monorepo =
     fs_of (mkdir [''tmp'', ''monorepo'', ''packages'', ''pkg-a'', ''src'']
             (touch [''tmp'', ''monorepo'', ''packages'', ''pkg-a'', ''marker_b'']
               (touch [''tmp'', ''monorepo'', ''packages'', ''pkg-a'', ''marker_a'']
                 (touch [''tmp'', ''monorepo'', ''marker_b'']
                   (touch [''tmp'', ''monorepo'', ''marker_a''] empty_environment)))))"

text \<open>
  A tree whose only marker and whose only qualifying source layout lie in the root
  directory: \<open>/home/user\<close> has \<open>src/\<close> but no Python file.
\<close>

definition root_only :: filesystem where
  "root_only =
     fs_of (mkdir [''home'', ''user'', ''src'']
             (mkdir [''src''] (touch [''setup.py''] empty_environment)))"

text \<open>
  \<open>test_empty_markers_list_uses_defaults\<close>: \<open>project\<close> holds \<open>pyproject.toml\<close>, one of the
  default markers, and the directory \<open>src\<close>.
\<close>

definition pyproject_project :: filesystem where
  "pyproject_project =
     fs_of (mkdir [''tmp'', ''project'', ''src'']
             (touch [''tmp'', ''project'', ''pyproject.toml''] empty_environment))"

text \<open>
  A project \<open>/d\<close> with \<open>src/\<close> and \<open>setup.py\<close>, and below it a chain of directories down
  to \<open>deep_dir\<close>, 50 levels below the root, which holds the file \<open>main.py\<close>.
\<close>

definition deep_dir :: path where
  "deep_dir = replicate 50 ''d''"

definition below_deep :: "path \<Rightarrow> bool" where
  "below_deep p \<longleftrightarrow> length p \<le> 50 \<and> list_all (\<lambda>c. c = ''d'') p"

definition deep_project :: filesystem where
  "deep_project =
     \<lparr>exists = (\<lambda>p. Inr (below_deep p \<or> p = [''d'', ''src''] \<or> p = [''d'', ''setup.py'']
                        \<or> p = deep_dir @ [''main.py''])),
      is_dir = (\<lambda>p. Inr (below_deep p \<or> p = [''d'', ''src''])),
      is_file = (\<lambda>p. Inr (p = [''d'', ''setup.py''] \<or> p = deep_dir @ [''main.py''])),
      glob_py = (\<lambda>p. Inr (if p = [''d''] then [[''d'', ''setup.py'']]
                           else if p = deep_dir then [deep_dir @ [''main.py'']] else []))\<rparr>"

section \<open>Marker scoring\<close>

text \<open>The loops are unfolded by hand, one step at a time.\<close>

declare markers_loop.simps [simp del]
declare structure_loop.simps [simp del]

subsection \<open>Paths\<close>

lemma update_fresh: "k \<notin> fst ` set al \<Longrightarrow> AList.update k v al = al @ [(k, v)]"
  by (induction al) auto

lemma parent_prefix: "prefix (parent p) p"
  by (simp add: parent_def prefixeq_butlast)

lemma not_prefix_parent: "p \<noteq> [] \<Longrightarrow> \<not> prefix p (parent p)"
  by (cases p rule: rev_cases) (auto simp: parent_def dest: prefix_length_le)

lemma length_parent: "p \<noteq> [] \<Longrightarrow> length (parent p) < length p"
  by (cases p rule: rev_cases) (simp_all add: parent_def)

lemma root_iff: "p = parent p \<longleftrightarrow> p = []"
proof
  assume "p = parent p"
  then have "length p = length (butlast p)" by (simp add: parent_def)
  then show "p = []" by (cases p rule: rev_cases) auto
qed (simp add: parent_def)

subsection \<open>The traversal\<close>

lemma markers_body_cases:
  assumes "markers_body fs ms s = Inr s'" "current s \<noteq> []"
  shows "current s' = parent (current s) \<and> depth s' = Suc (depth s)
       \<and> (candidates s' = candidates s
          \<or> (\<exists>n. candidates s' = AList.update (current s) n (candidates s)
                 \<and> scored fs ms (current s) n))"
  using assms
  by (auto simp: markers_body_def Let_def scored_def split: sum.splits bool.splits if_splits)

lemma markers_loop_stop:
  "current s = parent (current s) \<or> \<not> depth s < MAX_TRAVERSAL_DEPTH \<Longrightarrow>
   markers_loop fs ms s = s"
  by (subst markers_loop.simps) auto

lemma markers_loop_raise:
  "current s \<noteq> parent (current s) \<Longrightarrow> depth s < MAX_TRAVERSAL_DEPTH \<Longrightarrow>
   markers_body fs ms s = Inl e \<Longrightarrow> markers_loop fs ms s = s\<lparr>depth := depth s + 1\<rparr>"
  by (subst markers_loop.simps) simp

lemma markers_loop_step:
  "current s \<noteq> parent (current s) \<Longrightarrow> depth s < MAX_TRAVERSAL_DEPTH \<Longrightarrow>
   markers_body fs ms s = Inr s' \<Longrightarrow> markers_loop fs ms s = markers_loop fs ms s'"
  by (subst markers_loop.simps) simp

lemma markers_loop_candidates:
  assumes "\<forall>k\<in>fst ` set (candidates s). \<not> prefix k (current s)"
  shows "\<exists>new. candidates (markers_loop fs ms s) = candidates s @ new
           \<and> (\<forall>(d, n)\<in>set new. prefix d (current s) \<and> scored fs ms d n)
           \<and> sorted_wrt (\<lambda>x y. length (fst y) < length (fst x)) new"
  using assms
proof (induction fs ms s rule: markers_loop.induct)
  case (1 fs ms s)
  show ?case
  proof (cases "current s \<noteq> parent (current s) \<and> depth s < MAX_TRAVERSAL_DEPTH")
    case False
    then have "markers_loop fs ms s = s" by (intro markers_loop_stop) auto
    then show ?thesis by simp
  next
    case True
    then have ne: "current s \<noteq> []" by (simp add: root_iff)
    show ?thesis
    proof (cases "markers_body fs ms s")
      case (Inl e)
      then have "markers_loop fs ms s = s\<lparr>depth := depth s + 1\<rparr>"
        using True by (simp add: markers_loop_raise)
      then show ?thesis by simp
    next
      case (Inr s')
      have loop: "markers_loop fs ms s = markers_loop fs ms s'"
        using True Inr by (simp add: markers_loop_step)
      from markers_body_cases [OF Inr ne]
      have cur: "current s' = parent (current s)"
        and cands: "candidates s' = candidates s
          \<or> (\<exists>n. candidates s' = AList.update (current s) n (candidates s)
                 \<and> scored fs ms (current s) n)"
        by simp_all
      have fresh: "current s \<notin> fst ` set (candidates s)"
        using "1.prems" by auto
      from cands obtain add where add: "candidates s' = candidates s @ add"
        and add_cases: "add = [] \<or> (\<exists>n. add = [(current s, n)] \<and> scored fs ms (current s) n)"
        using update_fresh [OF fresh] by auto
      have pre': "\<forall>k\<in>fst ` set (candidates s'). \<not> prefix k (current s')"
      proof
        fix k assume "k \<in> fst ` set (candidates s')"
        then have "k \<in> fst ` set (candidates s) \<or> k = current s"
          using add add_cases by auto
        then show "\<not> prefix k (current s')"
        proof
          assume "k \<in> fst ` set (candidates s)"
          then have "\<not> prefix k (current s)" using "1.prems" by blast
          then show ?thesis
            using parent_prefix [of "current s"] cur by (auto dest: prefix_order.trans)
        next
          assume "k = current s"
          then show ?thesis using not_prefix_parent [OF ne] cur by simp
        qed
      qed
      from "1.IH" [OF True Inr pre'] obtain new where
        n1: "candidates (markers_loop fs ms s') = candidates s' @ new"
        and n2: "\<forall>(d, n)\<in>set new. prefix d (current s') \<and> scored fs ms d n"
        and n3: "sorted_wrt (\<lambda>x y. length (fst y) < length (fst x)) new"
        by blast
      have shorter: "\<forall>(d, n)\<in>set new. length d < length (current s)"
      proof (clarify)
        fix d n assume "(d, n) \<in> set new"
        then have "prefix d (parent (current s))" using n2 cur by auto
        then have "length d \<le> length (parent (current s))" by (rule prefix_length_le)
        then show "length d < length (current s)" using length_parent [OF ne] by simp
      qed
      have anc: "\<forall>(d, n)\<in>set new. prefix d (current s)"
        using n2 cur parent_prefix [of "current s"] by (auto dest: prefix_order.trans)
      have "candidates (markers_loop fs ms s) = candidates s @ (add @ new)"
        using loop n1 add by simp
      moreover have "\<forall>(d, n)\<in>set (add @ new). prefix d (current s) \<and> scored fs ms d n"
        using add_cases anc n2 by auto
      moreover have "sorted_wrt (\<lambda>x y. length (fst y) < length (fst x)) (add @ new)"
        using add_cases n3 shorter by (auto simp: sorted_wrt_append)
      ultimately show ?thesis by blast
    qed
  qed
qed



lemma recorded_scored:
  "(\<forall>(d, n)\<in>set (recorded fs ms c). prefix d c \<and> scored fs ms d n)
      \<and> sorted_wrt (\<lambda>x y. length (fst y) < length (fst x)) (recorded fs ms c)"
proof -
  let ?s = "\<lparr>candidates = [], depth = 0, current = c\<rparr>"
  have "\<forall>k\<in>fst ` set (candidates ?s). \<not> prefix k (current ?s)" by simp
  from markers_loop_candidates [OF this, of fs ms] obtain new where
    a: "candidates (markers_loop fs ms ?s) = candidates ?s @ new"
    and b: "\<forall>(d, n)\<in>set new. prefix d (current ?s) \<and> scored fs ms d n"
    and c: "sorted_wrt (\<lambda>x y. length (fst y) < length (fst x)) new" by blast
  from a have "recorded fs ms c = new" by (simp add: recorded_def)
  with b c show ?thesis by simp
qed
subsection \<open>The maximum scan\<close>

text \<open>
  The item \<open>py_max\<close> returns splits the list: the items before it have smaller counts,
  the items after it have counts that are not greater.
\<close>

lemma py_max_step: "py_max x (y # ys) = py_max (if snd y > snd x then y else x) ys"
  by (simp add: py_max_def)

lemma py_max_split:
  "r = py_max x xs \<Longrightarrow>
   \<exists>as bs. x # xs = as @ r # bs \<and> (\<forall>y\<in>set as. snd y < snd r) \<and> (\<forall>y\<in>set bs. snd y \<le> snd r)"
proof (induction xs arbitrary: x)
  case Nil
  then have "[x] = [] @ r # [] \<and> (\<forall>y\<in>set []. snd y < snd r) \<and> (\<forall>y\<in>set []. snd y \<le> snd r)"
    by (simp add: py_max_def)
  then show ?case by blast
next
  case (Cons y ys)
  show ?case
  proof (cases "snd y > snd x")
    case True
    then have "r = py_max y ys" using Cons.prems by (simp add: py_max_step)
    from Cons.IH [OF this] obtain as bs where
      d: "y # ys = as @ r # bs"
      and lt: "\<forall>z\<in>set as. snd z < snd r"
      and le: "\<forall>z\<in>set bs. snd z \<le> snd r" by blast
    have "snd y \<le> snd r"
    proof (cases as)
      case Nil
      then have "y = r" using d by simp
      then show ?thesis by simp
    next
      case (Cons a as')
      then have "y \<in> set as" using d by simp
      then show ?thesis using lt by (simp add: less_imp_le)
    qed
    then have "snd x < snd r" using True by simp
    then have "x # y # ys = (x # as) @ r # bs
        \<and> (\<forall>z\<in>set (x # as). snd z < snd r) \<and> (\<forall>z\<in>set bs. snd z \<le> snd r)"
      using d lt le by simp
    then show ?thesis by blast
  next
    case False
    then have "r = py_max x ys" using Cons.prems by (simp add: py_max_step)
    from Cons.IH [OF this] obtain as bs where
      d: "x # ys = as @ r # bs"
      and lt: "\<forall>z\<in>set as. snd z < snd r"
      and le: "\<forall>z\<in>set bs. snd z \<le> snd r" by blast
    show ?thesis
    proof (cases as)
      case Nil
      then have e: "x = r" and b: "ys = bs" using d by simp_all
      have "snd y \<le> snd r" using False e by simp
      then have "x # y # ys = [] @ r # (y # bs)
          \<and> (\<forall>z\<in>set []. snd z < snd r) \<and> (\<forall>z\<in>set (y # bs). snd z \<le> snd r)"
        using le e b by simp
      then show ?thesis by blast
    next
      case (Cons a as')
      then have a: "a = x" and ys: "ys = as' @ r # bs" using d by simp_all
      have x: "snd x < snd r" using lt Cons a by simp
      then have y: "snd y < snd r" using False by simp
      have as': "\<forall>z\<in>set as'. snd z < snd r" using lt Cons by simp
      have "x # y # ys = (x # y # as') @ r # bs" using ys by simp
      then have "x # y # ys = (x # y # as') @ r # bs
          \<and> (\<forall>z\<in>set (x # y # as'). snd z < snd r) \<and> (\<forall>z\<in>set bs. snd z \<le> snd r)"
        using x y as' le by simp
      then show ?thesis by blast
    qed
  qed
qed


lemma prefix_of_longer:
  "prefix a z \<Longrightarrow> prefix b z \<Longrightarrow> length a \<le> length b \<Longrightarrow> prefix a b"
  by (metis prefix_length_prefix)

subsection \<open>Selection\<close>

text \<open>
  C1. When the traversal has recorded a candidate, \<open>_find_by_markers\<close> returns a recorded
  directory \<open>d\<close> with its count \<open>c\<close>. Every recorded directory is the start directory or
  an ancestor of it and is recorded with the number of markers it holds; none has a
  count above \<open>c\<close>, and one with the count \<open>c\<close> is \<open>d\<close> itself or an ancestor of \<open>d\<close>, so
  that \<open>d\<close> is the directory nearest to the start among those with the highest count.
\<close>

theorem find_by_markers_max_nearest:
  assumes "is_file fs sp = Inr f"
    and "recorded fs (markers_or_default markers) (if f then parent sp else sp) \<noteq> []"
  shows "\<exists>d c. find_by_markers fs (Some sp) markers = Inr (Some d)
           \<and> (d, c) \<in> set (recorded fs (markers_or_default markers) (if f then parent sp else sp))
           \<and> (\<forall>(d', c')\<in>set (recorded fs (markers_or_default markers)
                                   (if f then parent sp else sp)).
                 prefix d' (if f then parent sp else sp)
                 \<and> marker_count fs d' (markers_or_default markers) = Inr c'
                 \<and> c' \<le> c \<and> (c' = c \<longrightarrow> prefix d' d))"
proof -
  define ms where "ms = markers_or_default markers"
  define start where "start = (if f then parent sp else sp)"
  define rec where "rec = recorded fs ms start"
  from assms(2) obtain x xs where rec: "rec = x # xs"
    unfolding rec_def ms_def start_def
    by (cases "recorded fs (markers_or_default markers) (if f then parent sp else sp)") auto
  obtain d c where r: "py_max x xs = (d, c)" by (cases "py_max x xs")
  have res: "find_by_markers fs (Some sp) markers = Inr (Some d)"
    using assms(1) rec r unfolding rec_def ms_def start_def by (simp add: find_by_markers_def)
  from recorded_scored [of fs ms start]
  have sc: "\<forall>(d, n)\<in>set rec. prefix d start \<and> scored fs ms d n"
    and so: "sorted_wrt (\<lambda>x y. length (fst y) < length (fst x)) rec"
    unfolding rec_def by simp_all
  from py_max_split [of "(d, c)" x xs] r obtain as bs where
    dec: "x # xs = as @ (d, c) # bs"
    and lt: "\<forall>y\<in>set as. snd y < c"
    and le: "\<forall>y\<in>set bs. snd y \<le> c" by auto
  have rec': "rec = as @ (d, c) # bs" using rec dec by simp
  have mem: "(d, c) \<in> set rec" using rec' by simp
  have pd: "prefix d start" using sc mem by auto
  have shorter: "\<forall>y\<in>set bs. length (fst y) < length d"
    using so unfolding rec' by (simp add: sorted_wrt_append)
  have all: "prefix d' start \<and> marker_count fs d' ms = Inr c'
             \<and> c' \<le> c \<and> (c' = c \<longrightarrow> prefix d' d)"
    if m: "(d', c') \<in> set rec" for d' c'
  proof -
    have p: "prefix d' start" and mc: "marker_count fs d' ms = Inr c'"
      using sc m by (auto simp: scored_def)
    from m rec' consider "(d', c') \<in> set as" | "(d', c') = (d, c)" | "(d', c') \<in> set bs"
      by auto
    then have "c' \<le> c \<and> (c' = c \<longrightarrow> prefix d' d)"
    proof cases
      case 1
      then have "c' < c" using lt by force
      then show ?thesis by simp
    next
      case 2
      then show ?thesis by simp
    next
      case 3
      then have "c' \<le> c" using le by force
      moreover have "length d' < length d" using shorter 3 by force
      then have "prefix d' d" using p pd by (simp add: prefix_of_longer [of d' start d])
      ultimately show ?thesis by simp
    qed
    then show ?thesis using p mc by simp
  qed
  show ?thesis
    using res mem all unfolding rec_def ms_def start_def by blast
qed

text \<open>
  \<open>test_monorepo_submodules_equal_markers\<close>: both directories are recorded with the
  count 2, the nearer one first, and the nearer one is returned.
\<close>

theorem find_by_markers_max_nearest_witness:
  "recorded monorepo [''marker_a'', ''marker_b'']
     [''tmp'', ''monorepo'', ''packages'', ''pkg-a'', ''src'']
   = [([''tmp'', ''monorepo'', ''packages'', ''pkg-a''], 2), ([''tmp'', ''monorepo''], 2)]
   \<and> find_by_markers monorepo (Some [''tmp'', ''monorepo'', ''packages'', ''pkg-a'', ''src''])
       (Some [''marker_a'', ''marker_b''])
     = Inr (Some [''tmp'', ''monorepo'', ''packages'', ''pkg-a''])"
proof -
  let ?start = "[''tmp'', ''monorepo'', ''packages'', ''pkg-a'', ''src'']"
  let ?ms = "Some [''marker_a'', ''marker_b'']"
  let ?pkg = "[''tmp'', ''monorepo'', ''packages'', ''pkg-a'']"
  let ?rec = "recorded monorepo (markers_or_default ?ms) (if False then parent ?start else ?start)"
  have a: "is_file monorepo ?start = Inr False" by code_simp
  have r: "recorded monorepo [''marker_a'', ''marker_b''] ?start
             = [(?pkg, 2), ([''tmp'', ''monorepo''], 2)]"
    by code_simp
  then have r': "?rec = [(?pkg, 2), ([''tmp'', ''monorepo''], 2)]"
    by (simp add: markers_or_default_def)
  then have b: "?rec \<noteq> []" by simp
  from find_by_markers_max_nearest [OF a b] obtain d c where
    res: "find_by_markers monorepo (Some ?start) ?ms = Inr (Some d)"
    and mem: "(d, c) \<in> set ?rec"
    and all: "\<forall>(d', c')\<in>set ?rec.
                prefix d' (if False then parent ?start else ?start)
                \<and> marker_count monorepo d' (markers_or_default ?ms) = Inr c'
                \<and> c' \<le> c \<and> (c' = c \<longrightarrow> prefix d' d)"
    by blast
  from mem have c: "c = 2" unfolding r' by auto
  have "(?pkg, 2) \<in> set ?rec" unfolding r' by simp
  with all have "2 = c \<longrightarrow> prefix ?pkg d" by blast
  then have "prefix ?pkg d" using c by simp
  moreover from mem have "d = ?pkg \<or> d = [''tmp'', ''monorepo'']"
    unfolding r' by auto
  ultimately have "d = ?pkg" by auto
  with res r show ?thesis by simp
qed

subsection \<open>Termination\<close>




subsection \<open>Blocked directory names\<close>

lemma py_max_mem: "py_max x xs \<in> set (x # xs)"
  using py_max_split [of "py_max x xs" x xs] by (metis in_set_conv_decomp)

lemma find_by_markers_Some:
  assumes "find_by_markers fs start markers = Inr (Some d)"
  shows "\<exists>sp f n. start = Some sp \<and> is_file fs sp = Inr f
           \<and> (d, n) \<in> set (recorded fs (markers_or_default markers) (if f then parent sp else sp))
           \<and> prefix d (if f then parent sp else sp)
           \<and> scored fs (markers_or_default markers) d n"
proof -
  from assms obtain sp where sp: "start = Some sp"
    by (cases start) (simp_all add: find_by_markers_def)
  from assms sp obtain f where f: "is_file fs sp = Inr f"
    by (cases "is_file fs sp") (simp_all add: find_by_markers_def)
  let ?rec = "recorded fs (markers_or_default markers) (if f then parent sp else sp)"
  from assms sp f obtain x xs where rec: "?rec = x # xs" and d: "d = fst (py_max x xs)"
    by (cases ?rec) (simp_all add: find_by_markers_def)
  have "py_max x xs \<in> set ?rec" unfolding rec by (rule py_max_mem)
  then have "(d, snd (py_max x xs)) \<in> set ?rec" using d by simp
  moreover from this recorded_scored [of fs "markers_or_default markers" "if f then parent sp else sp"]
  have "prefix d (if f then parent sp else sp)
        \<and> scored fs (markers_or_default markers) d (snd (py_max x xs))" by blast
  ultimately show ?thesis using sp f by blast
qed




subsection \<open>The default markers\<close>

lemma recorded_start:
  assumes "scored fs ms c n"
  shows "recorded fs ms c \<noteq> []"
proof -
  let ?s = "\<lparr>candidates = [], depth = 0, current = c\<rparr>"
  let ?s' = "\<lparr>candidates = [(c, n)], depth = 1, current = parent c\<rparr>"
  from assms have ne: "c \<noteq> []" by (simp add: scored_def)
  then have c1: "current ?s \<noteq> parent (current ?s)" by (simp add: root_iff)
  have c2: "depth ?s < MAX_TRAVERSAL_DEPTH" by (simp add: MAX_TRAVERSAL_DEPTH_def)
  have b: "markers_body fs ms ?s = Inr ?s'"
    using assms by (simp add: markers_body_def scored_def Let_def)
  have l: "markers_loop fs ms ?s = markers_loop fs ms ?s'"
    by (rule markers_loop_step [OF c1 c2 b])
  have "\<forall>k\<in>fst ` set (candidates ?s'). \<not> prefix k (current ?s')"
    using not_prefix_parent [OF ne] by simp
  from markers_loop_candidates [OF this, of fs ms] obtain new where
    "candidates (markers_loop fs ms ?s') = candidates ?s' @ new" by blast
  then show ?thesis unfolding recorded_def l by simp
qed

text \<open>
  C8. \<open>_find_by_markers\<close> with the empty marker list and with no marker list is
  \<open>_find_by_markers\<close> with the default markers, and the default markers are what it
  counts: a directory it returns for the empty list holds at least one default marker,
  and when the start directory can be scored and holds a default marker, the call with
  the empty list returns a directory.
\<close>

theorem find_by_markers_empty_is_default:
  "find_by_markers fs start (Some []) = find_by_markers fs start (Some DEFAULT_MARKERS)
   \<and> find_by_markers fs start None = find_by_markers fs start (Some DEFAULT_MARKERS)
   \<and> markers_or_default (Some []) = DEFAULT_MARKERS
   \<and> (\<forall>d. find_by_markers fs start (Some []) = Inr (Some d) \<longrightarrow>
         (\<exists>n. marker_count fs d DEFAULT_MARKERS = Inr n \<and> 0 < n))
   \<and> (is_file fs sp = Inr False \<and> sp \<noteq> [] \<and> name sp \<notin> NON_ROOT_DIR_NAMES
        \<and> exists fs sp = Inr True \<and> is_dir fs sp = Inr True
        \<and> marker_count fs sp DEFAULT_MARKERS = Inr k \<and> 0 < k \<longrightarrow>
      (\<exists>d. find_by_markers fs (Some sp) (Some []) = Inr (Some d)))"
proof -
  have a: "markers_or_default (Some []) = markers_or_default (Some DEFAULT_MARKERS)"
    by (simp add: markers_or_default_def DEFAULT_MARKERS_def)
  have b: "markers_or_default None = markers_or_default (Some DEFAULT_MARKERS)"
    by (simp add: markers_or_default_def DEFAULT_MARKERS_def)
  have c: "markers_or_default (Some []) = DEFAULT_MARKERS"
    by (simp add: markers_or_default_def)
  have e1: "find_by_markers fs start (Some []) = find_by_markers fs start (Some DEFAULT_MARKERS)"
    unfolding find_by_markers_def a by simp
  have e2: "find_by_markers fs start None = find_by_markers fs start (Some DEFAULT_MARKERS)"
    unfolding find_by_markers_def b by simp
  have s: "\<exists>n. marker_count fs d DEFAULT_MARKERS = Inr n \<and> 0 < n"
    if "find_by_markers fs start (Some []) = Inr (Some d)" for d
    using find_by_markers_Some [OF that] unfolding c by (auto simp: scored_def)
  have t: "\<exists>d. find_by_markers fs (Some sp) (Some []) = Inr (Some d)"
    if h: "is_file fs sp = Inr False \<and> sp \<noteq> [] \<and> name sp \<notin> NON_ROOT_DIR_NAMES
        \<and> exists fs sp = Inr True \<and> is_dir fs sp = Inr True
        \<and> marker_count fs sp DEFAULT_MARKERS = Inr k \<and> 0 < k"
  proof -
    from h have "scored fs DEFAULT_MARKERS sp k" by (simp add: scored_def)
    then have "recorded fs DEFAULT_MARKERS sp \<noteq> []" by (rule recorded_start)
    then obtain x xs where "recorded fs DEFAULT_MARKERS sp = x # xs"
      by (cases "recorded fs DEFAULT_MARKERS sp") auto
    with h show ?thesis by (simp add: find_by_markers_def c)
  qed
  from e1 e2 c s t show ?thesis by blast
qed

text \<open>
  With the empty list \<open>project\<close> is found by its \<open>pyproject.toml\<close>, from \<open>project/src\<close> and
  from \<open>project\<close> itself; with a marker list that names no file of the tree nothing is
  found.
\<close>

theorem find_by_markers_empty_is_default_witness:
  "find_by_markers pyproject_project (Some [''tmp'', ''project'', ''src'']) (Some [])
     = Inr (Some [''tmp'', ''project''])
   \<and> find_by_markers pyproject_project (Some [''tmp'', ''project'']) (Some [])
     = Inr (Some [''tmp'', ''project''])
   \<and> marker_count pyproject_project [''tmp'', ''project''] DEFAULT_MARKERS = Inr 1
   \<and> find_by_markers pyproject_project (Some [''tmp'', ''project'', ''src''])
       (Some [''NONEXISTENT_MARKER'']) = Inr None"
proof -
  let ?p = "[''tmp'', ''project'']"
  have r: "find_by_markers pyproject_project (Some [''tmp'', ''project'', ''src'']) (Some [])
     = Inr (Some ?p)" by code_simp
  have n: "find_by_markers pyproject_project (Some [''tmp'', ''project'', ''src''])
       (Some [''NONEXISTENT_MARKER'']) = Inr None" by code_simp
  have mc: "marker_count pyproject_project ?p DEFAULT_MARKERS = Inr 1" by code_simp
  have h: "is_file pyproject_project ?p = Inr False \<and> ?p \<noteq> [] \<and> name ?p \<notin> NON_ROOT_DIR_NAMES
        \<and> exists pyproject_project ?p = Inr True \<and> is_dir pyproject_project ?p = Inr True
        \<and> marker_count pyproject_project ?p DEFAULT_MARKERS = Inr 1 \<and> (0::nat) < 1"
    by code_simp
  note t = find_by_markers_empty_is_default [of pyproject_project "Some ?p" ?p 1]
  from t h obtain d where
    d: "find_by_markers pyproject_project (Some ?p) (Some []) = Inr (Some d)" by blast
  with t obtain k where k: "marker_count pyproject_project d DEFAULT_MARKERS = Inr k" "0 < k"
    by blast
  have "find_by_markers pyproject_project (Some ?p) (Some []) = Inr (Some ?p)" by code_simp
  with d k r n mc show ?thesis by simp
qed

subsection \<open>The file-system root\<close>

lemma marker_count_pos:
  "marker_count fs d ms = Inr n \<Longrightarrow> 0 < n \<Longrightarrow> \<exists>m\<in>set ms. exists fs (joinpath d m) = Inr True"
  by (induction ms arbitrary: n) (auto split: sum.splits if_splits)

lemma recorded_empty:
  assumes "\<forall>d. d \<noteq> [] \<longrightarrow> (\<forall>m\<in>set ms. exists fs (joinpath d m) \<noteq> Inr True)"
  shows "recorded fs ms c = []"
proof (rule ccontr)
  assume "recorded fs ms c \<noteq> []"
  then obtain d n where "(d, n) \<in> set (recorded fs ms c)"
    by (cases "recorded fs ms c") auto
  with recorded_scored [of fs ms c] have "scored fs ms d n" by blast
  then have "d \<noteq> []" and "\<exists>m\<in>set ms. exists fs (joinpath d m) = Inr True"
    by (auto simp: scored_def dest: marker_count_pos)
  with assms show False by blast
qed

lemma structure_loop_qualifies:
  "structure_loop fs n cur = Inr (Some r) \<Longrightarrow>
   r \<noteq> [] \<and> has_layout fs r = Inr True \<and> (\<exists>files. glob_py fs r = Inr files \<and> files \<noteq> [])"
proof (induction fs n cur rule: structure_loop.induct)
  case (1 fs d cur)
  from "1.prems" have c: "cur \<noteq> parent cur \<and> d < MAX_TRAVERSAL_DEPTH"
    by (subst (asm) structure_loop.simps) (simp split: if_splits)
  then have ne: "cur \<noteq> []" by (simp add: root_iff)
  show ?case
  proof (cases "has_layout fs cur")
    case (Inl e)
    with "1.prems" c show ?thesis by (subst (asm) structure_loop.simps) simp
  next
    case (Inr b)
    show ?thesis
    proof (cases b)
      case False
      with "1.prems" c Inr have "structure_loop fs (d + 1) (parent cur) = Inr (Some r)"
        by (subst (asm) structure_loop.simps) simp
      with "1.IH"(2) [OF c Inr] False show ?thesis by simp
    next
      case True
      show ?thesis
      proof (cases "glob_py fs cur")
        case (Inl e)
        with Inr True "1.prems" c show ?thesis by (subst (asm) structure_loop.simps) simp
      next
        case g: (Inr files)
        show ?thesis
        proof (cases "files = []")
          case e: True
          with "1.prems" c Inr True g
          have "structure_loop fs (d + 1) (parent cur) = Inr (Some r)"
            by (subst (asm) structure_loop.simps) simp
          with "1.IH"(1) [OF c Inr _ g] True e show ?thesis by simp
        next
          case False
          with g Inr True "1.prems" c have "r = cur"
            by (subst (asm) structure_loop.simps) simp
          with ne Inr True g False show ?thesis by simp
        qed
      qed
    qed
  qed
qed

lemma structure_loop_none:
  assumes "\<forall>d. d \<noteq> [] \<longrightarrow>
             has_layout fs d = Inr False \<or> (has_layout fs d = Inr True \<and> glob_py fs d = Inr [])"
  shows "structure_loop fs n cur = Inr None"
  using assms
proof (induction fs n cur rule: structure_loop.induct)
  case (1 fs d cur)
  show ?case
  proof (cases "cur \<noteq> parent cur \<and> d < MAX_TRAVERSAL_DEPTH")
    case False
    then show ?thesis by (subst structure_loop.simps) auto
  next
    case True
    then have "cur \<noteq> []" by (simp add: root_iff)
    with "1.prems" consider "has_layout fs cur = Inr False"
      | "has_layout fs cur = Inr True" "glob_py fs cur = Inr []" by blast
    then show ?thesis
    proof cases
      case 1
      then have "structure_loop fs d cur = structure_loop fs (d + 1) (parent cur)"
        using True by (subst structure_loop.simps) simp
      moreover have "structure_loop fs (d + 1) (parent cur) = Inr None"
        using "1.IH"(2) [OF True 1] "1.prems" by simp
      ultimately show ?thesis by simp
    next
      case 2
      then have "structure_loop fs d cur = structure_loop fs (d + 1) (parent cur)"
        using True by (subst structure_loop.simps) simp
      moreover have "structure_loop fs (d + 1) (parent cur) = Inr None"
        using "1.IH"(1) [OF True 2(1) _ 2(2)] "1.prems" by simp
      ultimately show ?thesis by simp
    qed
  qed
qed

text \<open>
  C9. Neither strategy returns the file-system root, and both loops return at once when
  the current directory is the root. When no directory other than the root holds a
  marker, \<open>_find_by_markers\<close> returns \<open>None\<close>. When no directory other than the root
  qualifies, that is, has the source layout together with a Python file,
  \<open>_find_by_structure\<close> returns no directory; and it returns \<open>None\<close> when each directory
  other than the root answers that it has no source layout, or that it has one and no
  Python file.
\<close>

theorem root_never_examined:
  "find_by_markers fs start markers \<noteq> Inr (Some [])
   \<and> find_by_structure fs start \<noteq> Inr (Some [])
   \<and> markers_loop fs ms (s\<lparr>current := []\<rparr>) = s\<lparr>current := []\<rparr>
   \<and> structure_loop fs n [] = Inr None
   \<and> (is_file fs sp = Inr f
        \<and> (\<forall>d. d \<noteq> [] \<longrightarrow>
              (\<forall>m\<in>set (markers_or_default markers). exists fs (joinpath d m) \<noteq> Inr True)) \<longrightarrow>
      find_by_markers fs (Some sp) markers = Inr None)
   \<and> ((\<forall>d. d \<noteq> [] \<longrightarrow>
          \<not> (has_layout fs d = Inr True \<and> (\<exists>files. glob_py fs d = Inr files \<and> files \<noteq> []))) \<longrightarrow>
      (\<forall>r. find_by_structure fs (Some sp) \<noteq> Inr (Some r)))
   \<and> ((\<forall>d. d \<noteq> [] \<longrightarrow>
          has_layout fs d = Inr False \<or> (has_layout fs d = Inr True \<and> glob_py fs d = Inr [])) \<longrightarrow>
      find_by_structure fs (Some sp) = Inr None)"
proof (intro conjI impI allI)
  show "find_by_markers fs start markers \<noteq> Inr (Some [])"
  proof
    assume "find_by_markers fs start markers = Inr (Some [])"
    from find_by_markers_Some [OF this] show False by (auto simp: scored_def)
  qed
next
  show "find_by_structure fs start \<noteq> Inr (Some [])"
  proof (cases start)
    case None
    then show ?thesis by (simp add: find_by_structure_def)
  next
    case (Some sp')
    then show ?thesis using structure_loop_qualifies [of fs 0 sp' "[]"]
      by (auto simp: find_by_structure_def)
  qed
next
  show "markers_loop fs ms (s\<lparr>current := []\<rparr>) = s\<lparr>current := []\<rparr>"
    by (rule markers_loop_stop) (simp add: parent_def)
next
  show "structure_loop fs n [] = Inr None"
    by (subst structure_loop.simps) (simp add: parent_def)
next
  assume a: "is_file fs sp = Inr f
        \<and> (\<forall>d. d \<noteq> [] \<longrightarrow>
              (\<forall>m\<in>set (markers_or_default markers). exists fs (joinpath d m) \<noteq> Inr True))"
  then have "recorded fs (markers_or_default markers) (if f then parent sp else sp) = []"
    by (intro recorded_empty) simp
  with a show "find_by_markers fs (Some sp) markers = Inr None"
    by (simp add: find_by_markers_def)
next
  fix r
  assume h: "\<forall>d. d \<noteq> [] \<longrightarrow>
          \<not> (has_layout fs d = Inr True \<and> (\<exists>files. glob_py fs d = Inr files \<and> files \<noteq> []))"
  show "find_by_structure fs (Some sp) \<noteq> Inr (Some r)"
  proof
    assume "find_by_structure fs (Some sp) = Inr (Some r)"
    then have "structure_loop fs 0 sp = Inr (Some r)" by (simp add: find_by_structure_def)
    from structure_loop_qualifies [OF this] h show False by blast
  qed
next
  assume "\<forall>d. d \<noteq> [] \<longrightarrow>
          has_layout fs d = Inr False \<or> (has_layout fs d = Inr True \<and> glob_py fs d = Inr [])"
  then show "find_by_structure fs (Some sp) = Inr None"
    by (simp add: find_by_structure_def structure_loop_none)
qed

lemma root_only_exists:
  "exists root_only p = Inr (p \<in> {[], [''home''], [''home'', ''user''],
      [''home'', ''user'', ''src''], [''src''], [''setup.py'']})"
  by (auto simp: root_only_def fs_of_def mkdir_def touch_def empty_environment_def parent_def)

lemma root_only_has_layout: "\<exists>b. has_layout root_only d = Inr b"
  by (auto simp: has_layout_def Let_def and_also_def or_else_def root_only_def fs_of_def
        split: bool.splits)

lemma root_only_glob: "d \<noteq> [] \<Longrightarrow> glob_py root_only d = Inr []"
  by (auto simp: root_only_def fs_of_def mkdir_def touch_def empty_environment_def parent_def
        name_def suffix_to_prefix)

text \<open>
  The root holds the marker \<open>setup.py\<close>, which is a Python file as well, and \<open>src/\<close>;
  \<open>/home/user\<close> has \<open>src/\<close> and no Python file. From \<open>/home/user\<close> neither strategy
  finds anything.
\<close>

theorem root_never_examined_witness:
  "exists root_only (joinpath [] ''setup.py'') = Inr True
   \<and> find_by_markers root_only (Some [''home'', ''user'']) (Some [''setup.py'']) = Inr None
   \<and> has_layout root_only [] = Inr True
   \<and> glob_py root_only [] = Inr [[''setup.py'']]
   \<and> has_layout root_only [''home'', ''user''] = Inr True
   \<and> glob_py root_only [''home'', ''user''] = Inr []
   \<and> find_by_structure root_only (Some [''home'', ''user'']) = Inr None"
proof -
  have f: "is_file root_only [''home'', ''user''] = Inr False" by code_simp
  have m: "\<forall>d. d \<noteq> [] \<longrightarrow>
              (\<forall>m\<in>set (markers_or_default (Some [''setup.py''])).
                  exists root_only (joinpath d m) \<noteq> Inr True)"
    by (auto simp: markers_or_default_def root_only_exists joinpath_def)
  have l: "\<forall>d. d \<noteq> [] \<longrightarrow>
          has_layout root_only d = Inr False
          \<or> (has_layout root_only d = Inr True \<and> glob_py root_only d = Inr [])"
    using root_only_has_layout root_only_glob by (metis (full_types))
  have e: "exists root_only (joinpath [] ''setup.py'') = Inr True" by code_simp
  have h: "has_layout root_only [] = Inr True" by code_simp
  have g: "glob_py root_only [] = Inr [[''setup.py'']]" by code_simp
  have h2: "has_layout root_only [''home'', ''user''] = Inr True" by code_simp
  have g2: "glob_py root_only [''home'', ''user''] = Inr []" by code_simp
  from root_never_examined [of root_only "Some [''home'', ''user'']" "Some [''setup.py'']"
      "[]" "\<lparr>candidates = [], depth = 0, current = []\<rparr>" 0 "[''home'', ''user'']" False] f m l
  have "find_by_markers root_only (Some [''home'', ''user'']) (Some [''setup.py'']) = Inr None"
    and "find_by_structure root_only (Some [''home'', ''user'']) = Inr None"
    by blast+
  with e h g h2 g2 show ?thesis by simp
qed

subsection \<open>A start path that is a file\<close>

text \<open>
  \<open>_find_by_markers\<close> steps from a file to its parent before the loop, so it returns what
  it returns for the parent.
\<close>

lemma find_by_markers_file_start:
  "is_file fs sp = Inr True \<Longrightarrow> is_file fs (parent sp) = Inr False \<Longrightarrow>
   find_by_markers fs (Some sp) markers = find_by_markers fs (Some (parent sp)) markers"
  by (simp add: find_by_markers_def)

text \<open>
  C2. \<open>_find_by_structure\<close> does not make that step: the file itself is the first
  directory it looks at and takes one of the 50 hops. From the file \<open>main.py\<close> in
  \<open>deep_dir\<close> the loop ends below the project \<open>/d\<close> and returns \<open>None\<close>, from \<open>deep_dir\<close>
  itself it reaches \<open>/d\<close> with its last hop and returns it.
\<close>

theorem find_by_structure_file_start:
  "is_file deep_project (deep_dir @ [''main.py'']) = Inr True
   \<and> parent (deep_dir @ [''main.py'']) = deep_dir
   \<and> is_dir deep_project deep_dir = Inr True
   \<and> find_by_structure deep_project (Some (deep_dir @ [''main.py''])) = Inr None
   \<and> find_by_structure deep_project (Some deep_dir) = Inr (Some [''d''])"
  by code_simp

section \<open>The orchestrator\<close>

subsection \<open>The loop over the strategy names\<close>

lemma try_methods_None_iff:
  "fst (try_methods mm ms) = None \<longleftrightarrow> (\<forall>n\<in>set ms. \<forall>p. mm n \<noteq> Some (Inr (Some p)))"
  by (induction ms) (auto split: option.splits sum.splits prod.splits)

lemma try_methods_Some:
  "fst (try_methods mm ms) = Some p \<Longrightarrow> \<exists>n\<in>set ms. mm n = Some (Inr (Some p))"
  by (induction ms) (auto split: option.splits sum.splits prod.splits)

lemma try_methods_cut:
  "mm n = Some (Inr (Some p)) \<Longrightarrow> try_methods mm (pre @ n # post) = try_methods mm (pre @ [n])"
  by (induction pre) (auto split: option.splits sum.splits prod.splits)

lemma invoked_try_methods_prefix:
  "prefix (invoked (snd (try_methods mm ms))) (filter (\<lambda>n. mm n \<noteq> None) ms)"
  by (induction ms) (auto split: option.splits sum.splits prod.splits)

lemma try_methods_invoked_nonempty:
  "n \<in> set ms \<Longrightarrow> mm n = Some (Inr (Some p)) \<Longrightarrow> invoked (snd (try_methods mm ms)) \<noteq> []"
  by (induction ms) (auto split: option.splits sum.splits prod.splits)

lemma find_root_trace:
  "trace (find_root mm sm f) =
     (if cache f = None then snd (try_methods mm (methods_or_default sm)) else [])"
  by (auto simp: find_root_def split: option.splits prod.splits)

lemma find_root_invoked_prefix:
  "prefix (invoked (trace (find_root mm sm f)))
          (filter (\<lambda>n. mm n \<noteq> None) (methods_or_default sm))"
proof (cases "cache f = None")
  case True
  then have "trace (find_root mm sm f) = snd (try_methods mm (methods_or_default sm))"
    by (simp add: find_root_trace)
  then show ?thesis by (simp only: invoked_try_methods_prefix)
next
  case False
  then have "trace (find_root mm sm f) = []" by (auto simp: find_root_trace)
  then show ?thesis by simp
qed

subsection \<open>Failure\<close>

text \<open>
  C3. On an instance with an empty cache, \<open>find_root\<close> raises the root-not-found error
  exactly when no strategy named in the list returns a path: a name that is not in
  \<open>method_map\<close>, a strategy that raises and a strategy that returns \<open>None\<close> all count as
  "not found". No other exception leaves \<open>find_root\<close>, and a path it returns is the path
  some named strategy returned.
\<close>

theorem find_root_raises_iff:
  assumes "cache f = None"
  shows "(result (find_root mm search_methods f) = Inl root_not_found \<longleftrightarrow>
            (\<forall>n\<in>set (methods_or_default search_methods). \<forall>p. mm n \<noteq> Some (Inr (Some p))))
       \<and> (\<forall>e. result (find_root mm search_methods f) = Inl e \<longrightarrow> e = root_not_found)
       \<and> (\<forall>p. result (find_root mm search_methods f) = Inr p \<longrightarrow>
            (\<exists>n\<in>set (methods_or_default search_methods). mm n = Some (Inr (Some p))))"
proof -
  let ?ms = "methods_or_default search_methods"
  obtain r tr where t: "try_methods mm ?ms = (r, tr)" by (cases "try_methods mm ?ms")
  have a: "r = None \<longleftrightarrow> (\<forall>n\<in>set ?ms. \<forall>p. mm n \<noteq> Some (Inr (Some p)))"
    using try_methods_None_iff [of mm ?ms] t by simp
  have b: "\<And>p. r = Some p \<Longrightarrow> \<exists>n\<in>set ?ms. mm n = Some (Inr (Some p))"
    using try_methods_Some [of mm ?ms] t by simp
  show ?thesis
    using assms t a b by (cases r) (auto simp: find_root_def)
qed

text \<open>The first strategy raises, the second name is unknown, the third returns \<open>None\<close>.\<close>

theorem find_root_raises_iff_witness:
  "result (find_root [''git'' \<mapsto> Inl (Exception ''RuntimeError'' ''boom''), ''markers'' \<mapsto> Inr None]
             (Some [''git'', ''nonexistent'', ''markers''])
             \<lparr>start_path = Some [''tmp'', ''empty''], cache = None\<rparr>) = Inl root_not_found"
  using find_root_raises_iff [of "\<lparr>start_path = Some [''tmp'', ''empty''], cache = None\<rparr>"
      "[''git'' \<mapsto> Inl (Exception ''RuntimeError'' ''boom''), ''markers'' \<mapsto> Inr None]"
      "Some [''git'', ''nonexistent'', ''markers'']"]
  by (simp add: methods_or_default_def)

subsection \<open>The cache\<close>

text \<open>
  C4. After a call of \<open>find_root\<close> that returned a path, the instance holds that path in
  its cache, and every later call on it, with whatever strategies and whatever list,
  returns the same path, calls no strategy and leaves the instance as it is.
\<close>

theorem find_root_cached:
  assumes "result (find_root mm search_methods f) = Inr p"
  shows "cache (self (find_root mm search_methods f)) = Some p
       \<and> find_root mm' search_methods' (self (find_root mm search_methods f)) =
           \<lparr>result = Inr p, self = self (find_root mm search_methods f), trace = []\<rparr>"
  using assms by (auto simp: find_root_def split: option.splits prod.splits)

theorem find_root_cached_witness:
  "find_root [''git'' \<mapsto> Inr None] (Some [''git''])
     (self (find_root [''markers'' \<mapsto> Inr (Some [''tmp'', ''project''])] (Some [''markers''])
              \<lparr>start_path = Some [''tmp'', ''project'', ''src''], cache = None\<rparr>))
   = \<lparr>result = Inr [''tmp'', ''project''],
      self = \<lparr>start_path = Some [''tmp'', ''project'', ''src''],
               cache = Some [''tmp'', ''project'']\<rparr>,
      trace = []\<rparr>"
  using find_root_cached [of "[''markers'' \<mapsto> Inr (Some [''tmp'', ''project''])]"
      "Some [''markers'']"
      "\<lparr>start_path = Some [''tmp'', ''project'', ''src''], cache = None\<rparr>" "[''tmp'', ''project'']"
      "[''git'' \<mapsto> Inr None]" "Some [''git'']"]
  by (simp add: find_root_def methods_or_default_def)

text \<open>
  C10. A call of \<open>find_root\<close> that raises leaves the instance as it was, with an empty
  cache. A later call on it runs its strategies: if one of the names it is given returns
  a path then the call returns a path, and it has called a strategy to get it.
\<close>

theorem find_root_failure_leaves_cache:
  assumes "result (find_root mm search_methods f) = Inl e"
  shows "self (find_root mm search_methods f) = f \<and> cache f = None
       \<and> (\<forall>n\<in>set (methods_or_default search_methods'). \<forall>p.
            mm' n = Some (Inr (Some p)) \<longrightarrow>
            (\<exists>q. result (find_root mm' search_methods' (self (find_root mm search_methods f)))
                   = Inr q)
            \<and> invoked (trace (find_root mm' search_methods'
                                (self (find_root mm search_methods f)))) \<noteq> [])"
proof -
  have a: "self (find_root mm search_methods f) = f" and b: "cache f = None"
    using assms by (auto simp: find_root_def split: option.splits prod.splits)
  have "\<exists>q. result (find_root mm' search_methods' f) = Inr q"
    if "n \<in> set (methods_or_default search_methods')" "mm' n = Some (Inr (Some p))" for n p
  proof -
    have "fst (try_methods mm' (methods_or_default search_methods')) \<noteq> None"
      using that try_methods_None_iff [of mm' "methods_or_default search_methods'"] by blast
    then show ?thesis using b by (auto simp: find_root_def split: option.splits prod.splits)
  qed
  moreover have "invoked (trace (find_root mm' search_methods' f)) \<noteq> []"
    if "n \<in> set (methods_or_default search_methods')" "mm' n = Some (Inr (Some p))" for n p
    using that b try_methods_invoked_nonempty [of n "methods_or_default search_methods'" mm' p]
    by (simp add: find_root_trace)
  ultimately show ?thesis using a b by auto
qed

text \<open>The markers strategy finds nothing at the first call and a path at the second.\<close>

theorem find_root_failure_leaves_cache_witness:
  "result (find_root [''markers'' \<mapsto> Inr None] (Some [''markers''])
             \<lparr>start_path = Some [''tmp'', ''project''], cache = None\<rparr>) = Inl root_not_found
   \<and> cache (self (find_root [''markers'' \<mapsto> Inr None] (Some [''markers''])
                    \<lparr>start_path = Some [''tmp'', ''project''], cache = None\<rparr>)) = None
   \<and> result (find_root [''markers'' \<mapsto> Inr (Some [''tmp'', ''project''])] (Some [''markers''])
               (self (find_root [''markers'' \<mapsto> Inr None] (Some [''markers''])
                        \<lparr>start_path = Some [''tmp'', ''project''], cache = None\<rparr>)))
       = Inr [''tmp'', ''project'']"
  using find_root_failure_leaves_cache [of "[''markers'' \<mapsto> Inr None]" "Some [''markers'']"
      "\<lparr>start_path = Some [''tmp'', ''project''], cache = None\<rparr>" root_not_found
      "Some [''markers'']" "[''markers'' \<mapsto> Inr (Some [''tmp'', ''project''])]"]
  by (simp add: find_root_def methods_or_default_def)

subsection \<open>Short circuit\<close>

text \<open>
  C5. When the strategy named at some place of the list returns a path, the call of
  \<open>find_root\<close> is in every respect (result, instance, trace) the call on the list cut
  after that place, and the strategies it calls are, in order, known names of the list
  up to that place: no strategy named later in the list is called.
\<close>

theorem find_root_short_circuit:
  assumes "mm n = Some (Inr (Some p))"
  shows "find_root mm (Some (pre @ n # post)) f = find_root mm (Some (pre @ [n])) f
       \<and> prefix (invoked (trace (find_root mm (Some (pre @ n # post)) f)))
                (filter (\<lambda>x. mm x \<noteq> None) (pre @ [n]))"
proof -
  have c: "try_methods mm (pre @ n # post) = try_methods mm (pre @ [n])"
    using assms by (rule try_methods_cut)
  then have e: "find_root mm (Some (pre @ n # post)) f = find_root mm (Some (pre @ [n])) f"
    by (simp add: find_root_def methods_or_default_def split: option.splits)
  have "prefix (invoked (trace (find_root mm (Some (pre @ [n])) f)))
               (filter (\<lambda>x. mm x \<noteq> None) (methods_or_default (Some (pre @ [n]))))"
    by (rule find_root_invoked_prefix)
  then have "prefix (invoked (trace (find_root mm (Some (pre @ [n])) f)))
               (filter (\<lambda>x. mm x \<noteq> None) (pre @ [n]))"
    by (simp only: methods_or_default_def option.case)
  with e show ?thesis by (simp only: simp_thms)
qed

text \<open>The git strategy returns a path, and the markers strategy after it is not called.\<close>

theorem find_root_short_circuit_witness:
  "trace (find_root [''git'' \<mapsto> Inr (Some [''tmp'', ''project'']), ''markers'' \<mapsto> Inr (Some [''tmp''])]
            (Some [''git'', ''markers''])
            \<lparr>start_path = Some [''tmp'', ''project'', ''src''], cache = None\<rparr>)
   = [Invoked ''git'']"
  using find_root_short_circuit [of
      "[''git'' \<mapsto> Inr (Some [''tmp'', ''project'']), ''markers'' \<mapsto> Inr (Some [''tmp''])]"
      "''git''" "[''tmp'', ''project'']" "[]" "[''markers'']"
      "\<lparr>start_path = Some [''tmp'', ''project'', ''src''], cache = None\<rparr>"]
  by (simp add: find_root_def methods_or_default_def)

end
